theory Spec2Isabelle
  imports Main "HOL-Library.Multiset" "HOL-Library.Sublist"
begin

section \<open>JavaScript values used by the report\<close>

text \<open>
  The program (\<^verbatim>\<open>src/index.js\<close>) is one asynchronous function \<^verbatim>\<open>main\<close>. Everything
  before line 133 fetches data over the network; the embedding starts where the data is
  in memory: the board's pipelines, the flat list of issues and the configured milestone
  are parameters.

  Point estimates and running totals are JavaScript values: a number, \<^verbatim>\<open>null\<close>,
  \<^verbatim>\<open>undefined\<close> (an absent field) or \<^verbatim>\<open>NaN\<close>. Numbers are modelled as integers: the
  embedding speaks about integral estimates whose sums stay below \<open>2^53\<close>, where the
  double arithmetic of JavaScript is exact and a number prints as its decimal digits.
\<close>

datatype jsnum = Number int | Null | Undefined | NaN

text \<open>\<^verbatim>\<open>ToNumber\<close> of the language: \<^verbatim>\<open>null\<close> is 0, \<^verbatim>\<open>undefined\<close> is \<^verbatim>\<open>NaN\<close>
  (here \<open>None\<close>).\<close>

fun ToNumber :: "jsnum \<Rightarrow> int option" where
  "ToNumber (Number n) = Some n"
| "ToNumber Null = Some 0"
| "ToNumber Undefined = None"
| "ToNumber NaN = None"

text \<open>The operator \<^verbatim>\<open>+\<close> on two values none of which is a string or an object.\<close>

definition js_add :: "jsnum \<Rightarrow> jsnum \<Rightarrow> jsnum" where
  "js_add a b =
     (case ToNumber a of
        None \<Rightarrow> NaN
      | Some x \<Rightarrow> (case ToNumber b of None \<Rightarrow> NaN | Some y \<Rightarrow> Number (x + y)))"

text \<open>Decimal digits of a natural number, as a template literal prints it.\<close>

fun digits :: "nat \<Rightarrow> string" where
  "digits n =
     (if n < 10 then [''0123456789'' ! n]
      else digits (n div 10) @ [''0123456789'' ! (n mod 10)])"

declare digits.simps [simp del]

definition int_toString :: "int \<Rightarrow> string" where
  "int_toString n = (if n < 0 then ''-'' @ digits (nat (- n)) else digits (nat n))"

fun toString :: "jsnum \<Rightarrow> string" where
  "toString (Number n) = int_toString n"
| "toString Null = ''null''"
| "toString Undefined = ''undefined''"
| "toString NaN = ''NaN''"

section \<open>Data model\<close>

text \<open>
  An issue as the code reads it. \<open>pull_request\<close> is the truthiness of the optional field;
  \<open>milestone\<close> is the title of the milestone object (\<open>None\<close> for \<^verbatim>\<open>null\<close>); \<open>assignee\<close> is
  the login of the assignee object (\<open>None\<close> for \<^verbatim>\<open>null\<close>); \<open>estimate\<close> is \<open>Undefined\<close> when
  the field is absent.
\<close>

record issue =
  repo_id :: nat
  repo_name :: string
  number :: nat
  title :: string
  state :: string
  pull_request :: bool
  milestone :: "string option"
  estimate :: jsnum
  assignee :: "string option"
  html_url :: string

text \<open>
  Both a pipeline of the board and an entry of \<^verbatim>\<open>richPipelines\<close> are objects
  \<^verbatim>\<open>{ name, issues }\<close>. On the board the elements of \<open>issues\<close> are references
  \<^verbatim>\<open>{ repo_id, issue_number }\<close>, modelled as pairs; in \<^verbatim>\<open>richPipelines\<close> they are issues.
\<close>

record 'a pipeline =
  name :: string
  issues :: "'a list"

type_synonym board = "(nat \<times> nat) pipeline list"

record stats =
  "open" :: jsnum
  closed :: jsnum

datatype error = TypeError

section \<open>Index of the board (lines 133-147)\<close>

text \<open>The property name \<^verbatim>\<open>`${repo_id}.${issue_number}`\<close>.\<close>

definition issueKey :: "nat \<Rightarrow> nat \<Rightarrow> string" where
  "issueKey r n = digits r @ ''.'' @ digits n"

text \<open>The inner \<^verbatim>\<open>pipelineIssues.map\<close>: every reference of one pipeline is written to
  the object under its key, with the pipeline's position.\<close>

definition indexPipeline :: "nat \<Rightarrow> (nat \<times> nat) list \<Rightarrow> (string \<rightharpoonup> nat) \<Rightarrow> (string \<rightharpoonup> nat)" where
  "indexPipeline idx pipelineIssues m = fold (\<lambda>(r, n) m'. m'(issueKey r n \<mapsto> idx)) pipelineIssues m"

text \<open>The object \<^verbatim>\<open>repoIssuePipelineMap\<close> after the outer \<^verbatim>\<open>board.pipelines.map\<close>. No key
  of the form built by \<open>issueKey\<close> is a property of \<^verbatim>\<open>Object.prototype\<close>, so the object
  starts as the empty map.\<close>

definition repoIssuePipelineMap :: "board \<Rightarrow> (string \<rightharpoonup> nat)" where
  "repoIssuePipelineMap pipelines =
     fold (\<lambda>(idx, p) m. indexPipeline idx (issues p) m) (enumerate 0 pipelines) Map.empty"

text \<open>The array \<^verbatim>\<open>richPipelines\<close> after the \<^verbatim>\<open>push\<close> of line 144.\<close>

definition richPipelines :: "board \<Rightarrow> issue pipeline list" where
  "richPipelines pipelines =
     map (\<lambda>p. \<lparr>name = name p, issues = []\<rparr>) pipelines @ [\<lparr>name = ''Closed'', issues = []\<rparr>]"

section \<open>Classification (lines 149-162)\<close>

text \<open>\<^verbatim>\<open>richPipelines[k].issues.push(issue)\<close>. Reading \<^verbatim>\<open>.issues\<close> of an element out of
  range throws a \<^verbatim>\<open>TypeError\<close>.\<close>

definition push_issue :: "issue pipeline list \<Rightarrow> nat \<Rightarrow> issue \<Rightarrow> error + issue pipeline list" where
  "push_issue rps k i =
     (if k < length rps then Inr (rps[k := (rps ! k)\<lparr>issues := issues (rps ! k) @ [i]\<rparr>])
      else Inl TypeError)"

text \<open>The body of the callback of \<^verbatim>\<open>issues.map\<close>.\<close>

definition classify_issue :: "(string \<rightharpoonup> nat) \<Rightarrow> issue pipeline list \<Rightarrow> issue \<Rightarrow> error + issue pipeline list" where
  "classify_issue m rps i =
     (let pipelineIndex = m (issueKey (repo_id i) (number i)) in
      if pull_request i then Inr rps
      else if pipelineIndex \<noteq> None \<and> state i \<noteq> ''closed'' then push_issue rps (the pipelineIndex) i
      else if rps = [] then Inl TypeError
      else push_issue rps (length rps - 1) i)"

fun classify :: "(string \<rightharpoonup> nat) \<Rightarrow> issue pipeline list \<Rightarrow> issue list \<Rightarrow> error + issue pipeline list" where
  "classify m rps [] = Inr rps"
| "classify m rps (i # rest) =
     (case classify_issue m rps i of Inl e \<Rightarrow> Inl e | Inr rps' \<Rightarrow> classify m rps' rest)"

section \<open>Aggregation and rendering (lines 164-204)\<close>

text \<open>The callback of \<^verbatim>\<open>_.filter\<close> (line 171). \<open>currentMilestone\<close> is the environment
  variable: \<open>None\<close> when it is not set, and then no title is equal to it.\<close>

definition milestoneIssues :: "string option \<Rightarrow> issue list \<Rightarrow> issue list" where
  "milestoneIssues currentMilestone iss =
     filter (\<lambda>i. case milestone i of None \<Rightarrow> False | Some t \<Rightarrow> Some t = currentMilestone) iss"

text \<open>
  \<^verbatim>\<open>_.sumBy\<close> of lodash 4 (the library of line 11; \<^verbatim>\<open>sumBy\<close> exists from version 4 on):
  \<^verbatim>\<open>
  function baseSum(array, iteratee) {
    var result, index = -1, length = array.length;
    while (++index < length) {
      var current = iteratee(array[index]);
      if (current !== undefined) {
        result = result === undefined ? current : (result + current);
      }
    }
    return result;
  }
  function sumBy(array, iteratee) {
    return (array && array.length) ? baseSum(array, getIteratee(iteratee, 2)) : 0;
  }
  \<close>
  \<open>sumStep\<close> is the body of the loop, from the old \<^verbatim>\<open>result\<close> and \<^verbatim>\<open>current\<close> to the new
  \<^verbatim>\<open>result\<close>.
\<close>

definition sumStep :: "jsnum \<Rightarrow> jsnum \<Rightarrow> jsnum" where
  "sumStep result current =
     (if current \<noteq> Undefined then (if result = Undefined then current else js_add result current)
      else result)"

definition baseSum :: "jsnum list \<Rightarrow> jsnum" where
  "baseSum values = foldl sumStep Undefined values"

definition sumBy :: "'a list \<Rightarrow> ('a \<Rightarrow> jsnum) \<Rightarrow> jsnum" where
  "sumBy array iteratee = (if array \<noteq> [] then baseSum (map iteratee array) else Number 0)"

text \<open>The two \<^verbatim>\<open>console.log\<close> calls for one issue of the body (lines 189-197).\<close>

definition issueLines :: "issue \<Rightarrow> string list" where
  "issueLines i =
     (let assigneeString = (case assignee i of None \<Rightarrow> '''' | Some login \<Rightarrow> '' '' @ login) in
      [repo_name i @ ''#'' @ digits (number i) @ '': '' @ title i @ '' ['' @ toString (estimate i)
         @ '' pts]'' @ assigneeString,
       html_url i])"

text \<open>The callback of \<^verbatim>\<open>richPipelines.map\<close> (lines 169-202), on the state it changes:
  \<^verbatim>\<open>stats\<close> and the console, a list with one entry for each \<^verbatim>\<open>console.log\<close> call.\<close>

definition reportPipeline :: "string option \<Rightarrow> issue pipeline \<Rightarrow> stats \<times> string list \<Rightarrow> stats \<times> string list" where
  "reportPipeline currentMilestone rp = (\<lambda>(st, out).
     let ms = milestoneIssues currentMilestone (issues rp);
         totalPoints = sumBy ms estimate;
         st' = (if name rp = ''Done'' \<or> name rp = ''Closed''
                then st\<lparr>closed := js_add (closed st) totalPoints\<rparr>
                else st\<lparr>open := js_add (open st) totalPoints\<rparr>);
         sectionTitle = name rp @ '' - '' @ toString totalPoints @ '' Points''
     in (st', out @ [sectionTitle, replicate (length sectionTitle) CHR ''-'']
               @ (if length ms = 0 then [''None''] else concat (map issueLines ms))
               @ ['' '']))"

definition report :: "string option \<Rightarrow> issue pipeline list \<Rightarrow> stats \<times> string list" where
  "report currentMilestone rps =
     (let (st, out) = fold (reportPipeline currentMilestone) rps (\<lparr>open = Number 0, closed = Number 0\<rparr>, [])
      in (st, out @ [''Total: '' @ toString (open st) @ '' / '' @ toString (js_add (closed st) (open st))]))"

text \<open>\<^verbatim>\<open>richPipelines\<close> when the loop of lines 149-162 is over, or the exception.\<close>

definition classified :: "board \<Rightarrow> issue list \<Rightarrow> error + issue pipeline list" where
  "classified pipelines allIssues =
     classify (repoIssuePipelineMap pipelines) (richPipelines pipelines) allIssues"

text \<open>\<^verbatim>\<open>main\<close> from line 133 on: the final \<^verbatim>\<open>stats\<close> and the console, or the exception.\<close>

definition main :: "board \<Rightarrow> issue list \<Rightarrow> string option \<Rightarrow> error + stats \<times> string list" where
  "main pipelines allIssues currentMilestone =
     (case classified pipelines allIssues of
        Inl e \<Rightarrow> Inl e
      | Inr rps \<Rightarrow> Inr (report currentMilestone rps))"

section \<open>Notions of the specification\<close>

text \<open>The position the specification routes an issue to (section 4.2): the indexed
  position when the identity is in the index and the state is not \<^verbatim>\<open>closed\<close>, and
  otherwise the position \<open>P\<close> of the Closed stage.\<close>

definition stage_of :: "(string \<rightharpoonup> nat) \<Rightarrow> nat \<Rightarrow> issue \<Rightarrow> nat" where
  "stage_of m P i =
     (case m (issueKey (repo_id i) (number i)) of
        None \<Rightarrow> P
      | Some k \<Rightarrow> if state i = ''closed'' then P else k)"

text \<open>The sum of a list of totals, as JavaScript adds them up from 0.\<close>

definition js_sum :: "jsnum list \<Rightarrow> jsnum" where
  "js_sum ts = foldl js_add (Number 0) ts"

text \<open>The total the code computes for a stage.\<close>

definition stageTotal :: "string option \<Rightarrow> issue pipeline \<Rightarrow> jsnum" where
  "stageTotal currentMilestone rp = sumBy (milestoneIssues currentMilestone (issues rp)) estimate"

text \<open>The numeric estimate of an issue, 0 when it has none.\<close>

definition points :: "jsnum \<Rightarrow> int" where
  "points v = (case v of Number n \<Rightarrow> n | Null \<Rightarrow> 0 | Undefined \<Rightarrow> 0 | NaN \<Rightarrow> 0)"

text \<open>The section of one stage as section 4.4 of the specification words it: header,
  underline, body, separator.\<close>

definition specIssueLine :: "issue \<Rightarrow> string" where
  "specIssueLine i =
     repo_name i @ ''#'' @ digits (number i) @ '': '' @ title i @ '' ['' @ toString (estimate i)
       @ '' pts]'' @ (case assignee i of None \<Rightarrow> '''' | Some login \<Rightarrow> '' '' @ login)"

definition specHeader :: "string \<Rightarrow> jsnum \<Rightarrow> string" where
  "specHeader stageName totalPoints = stageName @ '' - '' @ toString totalPoints @ '' Points''"

definition specSection :: "string \<Rightarrow> jsnum \<Rightarrow> issue list \<Rightarrow> string list" where
  "specSection stageName totalPoints filtered =
     [specHeader stageName totalPoints, replicate (length (specHeader stageName totalPoints)) CHR ''-'']
     @ (if filtered = [] then [''None'']
        else concat (map (\<lambda>i. [specIssueLine i, html_url i]) filtered))
     @ ['' '']"

text \<open>The stage list the routing of section 4.2 produces from a stage list \<open>rps\<close>: every
  stage keeps its name and gains, in input order, the issues that are no pull requests and
  are routed to its position.\<close>

definition routed :: "(string \<rightharpoonup> nat) \<Rightarrow> issue pipeline list \<Rightarrow> issue list \<Rightarrow> issue pipeline list" where
  "routed m rps is =
     map (\<lambda>k. (rps ! k)\<lparr>issues := issues (rps ! k)
            @ filter (\<lambda>i. \<not> pull_request i \<and> stage_of m (length rps - 1) i = k) is\<rparr>)
       [0..<length rps]"

section \<open>The example of the specification\<close>

text \<open>Section 8 of the specification: pipelines \<^verbatim>\<open>In Progress\<close> and \<^verbatim>\<open>Done\<close>; issue A is open
  and on \<^verbatim>\<open>In Progress\<close>, issue B is closed and on \<^verbatim>\<open>Done\<close>, issue C is closed and on no
  pipeline. \<open>pullD\<close> is a pull request, added to the example.\<close>

definition exampleBoard :: board where
  "exampleBoard =
     [\<lparr>name = ''In Progress'', issues = [(1, 10)]\<rparr>,
      \<lparr>name = ''Done'', issues = [(1, 11)]\<rparr>]"

definition issueA :: issue where
  "issueA = \<lparr>repo_id = 1, repo_name = ''app'', number = 10, title = ''A'', state = ''open'',
     pull_request = False, milestone = Some ''v1'', estimate = Number 3, assignee = Some ''ann'',
     html_url = ''https://example.org/app/issues/10''\<rparr>"

definition issueB :: issue where
  "issueB = \<lparr>repo_id = 1, repo_name = ''app'', number = 11, title = ''B'', state = ''closed'',
     pull_request = False, milestone = Some ''v1'', estimate = Number 5, assignee = None,
     html_url = ''https://example.org/app/issues/11''\<rparr>"

definition issueC :: issue where
  "issueC = \<lparr>repo_id = 1, repo_name = ''app'', number = 12, title = ''C'', state = ''closed'',
     pull_request = False, milestone = Some ''v1'', estimate = Number 2, assignee = None,
     html_url = ''https://example.org/app/issues/12''\<rparr>"

definition pullD :: issue where
  "pullD = \<lparr>repo_id = 1, repo_name = ''app'', number = 13, title = ''D'', state = ''open'',
     pull_request = True, milestone = Some ''v1'', estimate = Number 8, assignee = None,
     html_url = ''https://example.org/app/pull/13''\<rparr>"

definition exampleIssues :: "issue list" where
  "exampleIssues = [issueA, pullD, issueB, issueC]"

text \<open>A board that lists one issue on two pipelines.\<close>

definition twiceBoard :: board where
  "twiceBoard =
     [\<lparr>name = ''Backlog'', issues = [(1, 10), (2, 5)]\<rparr>,
      \<lparr>name = ''In Progress'', issues = [(1, 10)]\<rparr>,
      \<lparr>name = ''Review'', issues = []\<rparr>]"

text \<open>Issues for the milestone filter: one without a milestone, one whose milestone title
  differs from \<^verbatim>\<open>v1\<close> in case only; and an issue of milestone \<^verbatim>\<open>v1\<close> that has no
  \<^verbatim>\<open>estimate\<close> field, on a board of one pipeline.\<close>

definition unplanned :: issue where
  "unplanned = \<lparr>repo_id = 1, repo_name = ''app'', number = 14, title = ''E'', state = ''open'',
     pull_request = False, milestone = None, estimate = Number 13, assignee = None,
     html_url = ''https://example.org/app/issues/14''\<rparr>"

definition otherCase :: issue where
  "otherCase = \<lparr>repo_id = 1, repo_name = ''app'', number = 15, title = ''F'', state = ''open'',
     pull_request = False, milestone = Some ''V1'', estimate = Number 21, assignee = None,
     html_url = ''https://example.org/app/issues/15''\<rparr>"

definition unestimated :: issue where
  "unestimated = \<lparr>repo_id = 1, repo_name = ''app'', number = 20, title = ''U'', state = ''open'',
     pull_request = False, milestone = Some ''v1'', estimate = Undefined, assignee = None,
     html_url = ''https://example.org/app/issues/20''\<rparr>"

definition backlogBoard :: board where
  "backlogBoard = [\<lparr>name = ''Backlog'', issues = [(1, 20)]\<rparr>]"

section \<open>Keys identify issues\<close>

lemma digits_nonempty: "digits n \<noteq> []"
  by (subst digits.simps) simp

lemma digit_char_inj:
  assumes "a < 10" "b < 10" "''0123456789'' ! a = ''0123456789'' ! b"
  shows "a = b"
proof -
  have d: "distinct ''0123456789''" by simp
  have "a < length ''0123456789''" "b < length ''0123456789''" using assms by simp_all
  with d assms(3) show ?thesis by (simp only: nth_eq_iff_index_eq)
qed

lemma digit_char_not_dot: "a < 10 \<Longrightarrow> ''0123456789'' ! a \<noteq> CHR ''.''"
proof -
  assume "a < 10"
  then have "a < length ''0123456789''" by simp
  then have "''0123456789'' ! a \<in> set ''0123456789''" by (rule nth_mem)
  then show ?thesis by auto
qed

lemma digits_no_dot: "CHR ''.'' \<notin> set (digits n)"
proof (induction n rule: digits.induct)
  case (1 n)
  show ?case
  proof (cases "n < 10")
    case True
    then show ?thesis using digit_char_not_dot [of n] by (subst digits.simps) auto
  next
    case False
    have "n mod 10 < 10" by simp
    then have "''0123456789'' ! (n mod 10) \<noteq> CHR ''.''" by (rule digit_char_not_dot)
    with False "1.IH" show ?thesis by (subst digits.simps) auto
  qed
qed

lemma digits_inj: "digits a = digits b \<Longrightarrow> a = b"
proof (induction a arbitrary: b rule: digits.induct)
  case (1 a)
  show ?case
  proof (cases "a < 10")
    case a: True
    show ?thesis
    proof (cases "b < 10")
      case True
      with a "1.prems" show ?thesis
        using digit_char_inj [of a b] by (simp add: digits.simps [of a] digits.simps [of b])
    next
      case False
      with a "1.prems" digits_nonempty [of "b div 10"] show ?thesis
        by (simp add: digits.simps [of a] digits.simps [of b])
    qed
  next
    case a: False
    show ?thesis
    proof (cases "b < 10")
      case True
      with a "1.prems" digits_nonempty [of "a div 10"] show ?thesis
        by (simp add: digits.simps [of a] digits.simps [of b])
    next
      case False
      with a "1.prems" have e: "digits (a div 10) = digits (b div 10)"
        and c: "''0123456789'' ! (a mod 10) = ''0123456789'' ! (b mod 10)"
        by (simp_all add: digits.simps [of a] digits.simps [of b])
      from a e have "a div 10 = b div 10" by (rule "1.IH")
      moreover have "a mod 10 = b mod 10"
        using c by (intro digit_char_inj) simp_all
      ultimately show ?thesis by (metis div_mult_mod_eq)
    qed
  qed
qed

lemma split_at_separator:
  "c \<notin> set xs \<Longrightarrow> c \<notin> set xs' \<Longrightarrow> xs @ c # ys = xs' @ c # ys' \<Longrightarrow> xs = xs' \<and> ys = ys'"
proof (induction xs arbitrary: xs')
  case Nil
  then show ?case by (cases xs') auto
next
  case (Cons x xs)
  then show ?case by (cases xs') auto
qed

lemma issueKey_inj: "issueKey r n = issueKey r' n' \<longleftrightarrow> r = r' \<and> n = n'"
proof
  assume "issueKey r n = issueKey r' n'"
  then have "digits r @ CHR ''.'' # digits n = digits r' @ CHR ''.'' # digits n'"
    by (simp add: issueKey_def)
  then have "digits r = digits r' \<and> digits n = digits n'"
    by (intro split_at_separator [of "CHR ''.''"] digits_no_dot)
  then show "r = r' \<and> n = n'" by (auto dest: digits_inj)
qed simp

section \<open>The index\<close>

lemma indexPipeline_apply:
  "indexPipeline idx xs m key =
     (if key \<in> (\<lambda>(r, n). issueKey r n) ` set xs then Some idx else m key)"
  unfolding indexPipeline_def
  by (induction xs arbitrary: m) (auto split: prod.splits)

lemma indexPipeline_issueKey:
  "indexPipeline idx xs m (issueKey r n) =
     (if (r, n) \<in> set xs then Some idx else m (issueKey r n))"
  by (auto simp: indexPipeline_apply issueKey_inj image_iff split: prod.splits)

lemma repoIssuePipelineMap_Nil: "repoIssuePipelineMap [] = Map.empty"
  by (simp add: repoIssuePipelineMap_def)

lemma repoIssuePipelineMap_snoc:
  "repoIssuePipelineMap (ps @ [p]) = indexPipeline (length ps) (issues p) (repoIssuePipelineMap ps)"
  by (simp add: repoIssuePipelineMap_def enumerate_append_eq)

lemma index_Some_iff:
  "repoIssuePipelineMap board (issueKey r n) = Some k \<longleftrightarrow>
     k < length board \<and> (r, n) \<in> set (issues (board ! k)) \<and>
     (\<forall>j. k < j \<and> j < length board \<longrightarrow> (r, n) \<notin> set (issues (board ! j)))"
proof (induction board rule: rev_induct)
  case Nil
  show ?case by (simp add: repoIssuePipelineMap_Nil)
next
  case (snoc p ps)
  show ?case
  proof (cases "(r, n) \<in> set (issues p)")
    case True
    have "k = length ps \<longleftrightarrow>
       k < Suc (length ps) \<and> (r, n) \<in> set (issues ((ps @ [p]) ! k)) \<and>
       (\<forall>j. k < j \<and> j < Suc (length ps) \<longrightarrow> (r, n) \<notin> set (issues ((ps @ [p]) ! j)))"
      (is "?l \<longleftrightarrow> ?r")
    proof
      assume ?l
      with True show ?r by auto
    next
      assume r: ?r
      show ?l
      proof (rule ccontr)
        assume "k \<noteq> length ps"
        with r have k: "k < length ps" by simp
        from r have "\<forall>j. k < j \<and> j < Suc (length ps) \<longrightarrow> (r, n) \<notin> set (issues ((ps @ [p]) ! j))"
          by blast
        with k have "(r, n) \<notin> set (issues ((ps @ [p]) ! length ps))" by blast
        with True show False by simp
      qed
    qed
    with True show ?thesis
      by (simp add: repoIssuePipelineMap_snoc indexPipeline_issueKey eq_commute [of "length ps" k])
  next
    case False
    have "(k < length ps \<and> (r, n) \<in> set (issues (ps ! k)) \<and>
          (\<forall>j. k < j \<and> j < length ps \<longrightarrow> (r, n) \<notin> set (issues (ps ! j)))) \<longleftrightarrow>
       (k < Suc (length ps) \<and> (r, n) \<in> set (issues ((ps @ [p]) ! k)) \<and>
       (\<forall>j. k < j \<and> j < Suc (length ps) \<longrightarrow> (r, n) \<notin> set (issues ((ps @ [p]) ! j))))"
      (is "?l \<longleftrightarrow> ?r")
    proof
      assume l: ?l
      then have "\<And>j. k < j \<Longrightarrow> j < Suc (length ps) \<Longrightarrow> (r, n) \<notin> set (issues ((ps @ [p]) ! j))"
        using False by (auto simp: nth_append)
      with l show ?r by (auto simp: nth_append)
    next
      assume r: ?r
      with False have k: "k < length ps" by (cases "k = length ps") auto
      with r have "\<And>j. k < j \<Longrightarrow> j < length ps \<Longrightarrow> (r, n) \<notin> set (issues (ps ! j))"
        by (metis less_Suc_eq nth_append)
      with r k show ?l by (auto simp: nth_append)
    qed
    with False snoc.IH show ?thesis
      by (simp add: repoIssuePipelineMap_snoc indexPipeline_issueKey)
  qed
qed

lemma index_None_iff:
  "repoIssuePipelineMap board (issueKey r n) = None \<longleftrightarrow> (\<forall>p \<in> set board. (r, n) \<notin> set (issues p))"
  by (induction board rule: rev_induct)
     (auto simp: repoIssuePipelineMap_Nil repoIssuePipelineMap_snoc indexPipeline_issueKey)

lemma index_dom:
  "dom (repoIssuePipelineMap board) = (\<lambda>(r, n). issueKey r n) ` (\<Union>p \<in> set board. set (issues p))"
proof (induction board rule: rev_induct)
  case Nil
  show ?case by (simp add: repoIssuePipelineMap_Nil)
next
  case (snoc p ps)
  have "dom (indexPipeline idx xs m) = dom m \<union> (\<lambda>(r, n). issueKey r n) ` set xs" for idx xs m
    by (auto simp: indexPipeline_apply dom_def)
  with snoc show ?case by (auto simp: repoIssuePipelineMap_snoc)
qed

lemma index_range: "repoIssuePipelineMap board key = Some k \<Longrightarrow> k < length board"
proof (induction board arbitrary: k rule: rev_induct)
  case Nil
  then show ?case by (simp add: repoIssuePipelineMap_Nil)
next
  case (snoc p ps)
  then show ?case
    by (auto simp: repoIssuePipelineMap_snoc indexPipeline_apply less_Suc_eq split: if_splits)
qed

lemma index_card:
  "card (dom (repoIssuePipelineMap board)) = card (\<Union>p \<in> set board. set (issues p))"
proof -
  have "inj (\<lambda>(r, n). issueKey r n)"
    by (auto simp: inj_on_def issueKey_inj)
  then have "inj_on (\<lambda>(r, n). issueKey r n) (\<Union>p \<in> set board. set (issues p))"
    by (rule inj_on_subset) simp
  then show ?thesis by (simp add: index_dom card_image)
qed

section \<open>The classifier\<close>

lemma stage_of_less:
  assumes "rps \<noteq> []" "\<And>key k. m key = Some k \<Longrightarrow> k < length rps"
  shows "stage_of m (length rps - 1) i < length rps"
  using assms by (auto simp: stage_of_def split: option.splits)

lemma classify_issue_stage_of:
  assumes "rps \<noteq> []" "\<And>key k. m key = Some k \<Longrightarrow> k < length rps"
  shows "classify_issue m rps i =
     Inr (if pull_request i then rps
          else rps[stage_of m (length rps - 1) i :=
                 (rps ! stage_of m (length rps - 1) i)
                   \<lparr>issues := issues (rps ! stage_of m (length rps - 1) i) @ [i]\<rparr>])"
proof (cases "m (issueKey (repo_id i) (number i))")
  case None
  with assms(1) show ?thesis
    by (simp add: classify_issue_def push_issue_def stage_of_def)
next
  case (Some k)
  with assms(2) have "k < length rps" by blast
  with Some assms(1) show ?thesis
    by (simp add: classify_issue_def push_issue_def stage_of_def)
qed

lemma classify_routed:
  assumes "rps \<noteq> []" "\<And>key k. m key = Some k \<Longrightarrow> k < length rps"
  shows "classify m rps is = Inr (routed m rps is)"
  using assms
proof (induction "is" arbitrary: rps)
  case Nil
  have "map (\<lambda>k. rps ! k) [0..<length rps] = rps" by (rule map_nth)
  then show ?case by (simp add: routed_def)
next
  case (Cons i rest)
  let ?d = "stage_of m (length rps - 1) i"
  let ?rps1 = "if pull_request i then rps
               else rps[?d := (rps ! ?d)\<lparr>issues := issues (rps ! ?d) @ [i]\<rparr>]"
  have step: "classify_issue m rps i = Inr ?rps1"
    using Cons.prems by (rule classify_issue_stage_of)
  have len: "length ?rps1 = length rps" by simp
  have ne: "?rps1 \<noteq> []" using Cons.prems(1) by auto
  have "classify m ?rps1 rest = Inr (routed m ?rps1 rest)"
  proof (rule Cons.IH [OF ne])
    fix key k
    assume "m key = Some k"
    then have "k < length rps" by (rule Cons.prems(2))
    then show "k < length ?rps1" by simp
  qed
  moreover have "routed m ?rps1 rest = routed m rps (i # rest)"
  proof (rule nth_equalityI)
    show "length (routed m ?rps1 rest) = length (routed m rps (i # rest))"
      by (simp add: routed_def)
  next
    fix k
    assume "k < length (routed m ?rps1 rest)"
    then have k: "k < length rps" by (simp add: routed_def split: if_splits)
    show "routed m ?rps1 rest ! k = routed m rps (i # rest) ! k"
    proof (cases "pull_request i")
      case True
      with k show ?thesis by (simp add: routed_def)
    next
      case False
      with k show ?thesis by (simp add: routed_def nth_list_update)
    qed
  qed
  ultimately show ?case using step by simp
qed

lemma richPipelines_length: "length (richPipelines board) = Suc (length board)"
  by (simp add: richPipelines_def)

lemma classified_routed:
  "classified board allIssues =
     Inr (routed (repoIssuePipelineMap board) (richPipelines board) allIssues)"
  unfolding classified_def
proof (rule classify_routed)
  show "richPipelines board \<noteq> []" by (simp add: richPipelines_def)
next
  fix key k
  assume "repoIssuePipelineMap board key = Some k"
  then have "k < length board" by (rule index_range)
  then show "k < length (richPipelines board)" by (simp add: richPipelines_length)
qed

lemma routed_length: "length (routed m rps is) = length rps"
  by (simp add: routed_def)

lemma routed_nth:
  "k < length rps \<Longrightarrow>
   routed m rps is ! k =
     (rps ! k)\<lparr>issues := issues (rps ! k)
        @ filter (\<lambda>i. \<not> pull_request i \<and> stage_of m (length rps - 1) i = k) is\<rparr>"
  by (simp add: routed_def)

lemma richPipelines_nth_issues: "k \<le> length board \<Longrightarrow> issues (richPipelines board ! k) = []"
  by (cases "k = length board") (simp_all add: richPipelines_def nth_append)

lemma richPipelines_names: "map name (richPipelines board) = map name board @ [''Closed'']"
  by (simp add: richPipelines_def comp_def)

lemma classified_nth_issues:
  assumes "classified board allIssues = Inr rps" "k \<le> length board"
  shows "issues (rps ! k) =
     filter (\<lambda>i. \<not> pull_request i \<and> stage_of (repoIssuePipelineMap board) (length board) i = k) allIssues"
proof -
  from assms(1) have "rps = routed (repoIssuePipelineMap board) (richPipelines board) allIssues"
    by (simp add: classified_routed)
  with assms(2) show ?thesis
    by (simp add: routed_nth richPipelines_length richPipelines_nth_issues)
qed

lemma classified_length:
  assumes "classified board allIssues = Inr rps"
  shows "length rps = Suc (length board)"
  using assms by (auto simp: classified_routed routed_length richPipelines_length)

lemma classified_names:
  assumes "classified board allIssues = Inr rps"
  shows "map name rps = map name board @ [''Closed'']"
proof -
  have "map name (routed m xs is) = map name xs" for m xs "is"
    by (rule nth_equalityI) (simp_all add: routed_def)
  with assms show ?thesis by (auto simp: classified_routed richPipelines_names)
qed

section \<open>Exhaustive partition\<close>

lemmas example_defs = exampleBoard_def exampleIssues_def issueA_def issueB_def issueC_def pullD_def

lemma example_index:
  "repoIssuePipelineMap exampleBoard (issueKey 1 10) = Some 0"
  "repoIssuePipelineMap exampleBoard (issueKey 1 11) = Some 1"
  "repoIssuePipelineMap exampleBoard (issueKey 1 12) = None"
  "repoIssuePipelineMap exampleBoard (issueKey 1 13) = None"
  by (simp_all add: exampleBoard_def repoIssuePipelineMap_def indexPipeline_def issueKey_def digits.simps)

lemma example_classified:
  "classified exampleBoard exampleIssues =
     Inr [\<lparr>name = ''In Progress'', issues = [issueA]\<rparr>,
          \<lparr>name = ''Done'', issues = []\<rparr>,
          \<lparr>name = ''Closed'', issues = [issueB, issueC]\<rparr>]"
proof -
  have "classified exampleBoard exampleIssues =
      classify (repoIssuePipelineMap exampleBoard) (richPipelines exampleBoard) exampleIssues"
    by (simp add: classified_def)
  also have "\<dots> = Inr [\<lparr>name = ''In Progress'', issues = [issueA]\<rparr>,
          \<lparr>name = ''Done'', issues = []\<rparr>,
          \<lparr>name = ''Closed'', issues = [issueB, issueC]\<rparr>]"
    using example_index
    by (simp add: exampleIssues_def classify_issue_def push_issue_def richPipelines_def
        exampleBoard_def issueA_def issueB_def issueC_def pullD_def)
  finally show ?thesis .
qed

lemma partition_by_stage:
  "mset (concat (map (\<lambda>k. filter (\<lambda>i. Q i \<and> d i = k) xs) [0..<n])) = mset (filter (\<lambda>i. Q i \<and> d i < n) xs)"
proof (induction n)
  case 0
  show ?case by simp
next
  case (Suc n)
  have "mset (filter (\<lambda>i. Q i \<and> d i < n) xs) + mset (filter (\<lambda>i. Q i \<and> d i = n) xs)
      = mset (filter (\<lambda>i. Q i \<and> d i < Suc n) xs)"
    by (induction xs) (auto simp: less_Suc_eq)
  with Suc show ?case by simp
qed

lemma stage_of_index_le: "stage_of (repoIssuePipelineMap board) (length board) i \<le> length board"
  by (auto simp: stage_of_def split: option.splits dest: index_range)

lemma classified_as_map:
  assumes "classified board allIssues = Inr rps"
  shows "map issues rps =
     map (\<lambda>k. filter (\<lambda>i. \<not> pull_request i \<and> stage_of (repoIssuePipelineMap board) (length board) i = k) allIssues)
       [0..<Suc (length board)]"
proof (rule nth_equalityI)
  show "length (map issues rps) = length (map (\<lambda>k. filter (\<lambda>i. \<not> pull_request i \<and> stage_of (repoIssuePipelineMap board) (length board) i = k) allIssues)
       [0..<Suc (length board)])"
    using classified_length [OF assms] by simp
next
  fix k
  assume "k < length (map issues rps)"
  then have k: "k < Suc (length board)" using classified_length [OF assms] by simp
  then have "k \<le> length board" by simp
  from classified_nth_issues [OF assms this] k classified_length [OF assms]
  show "map issues rps ! k = map (\<lambda>k. filter (\<lambda>i. \<not> pull_request i \<and> stage_of (repoIssuePipelineMap board) (length board) i = k) allIssues)
       [0..<Suc (length board)] ! k"
    by (simp del: upt_Suc add: nth_map_upt)
qed

lemma classified_mset:
  assumes "classified board allIssues = Inr rps"
  shows "mset (concat (map issues rps)) = mset (filter (\<lambda>i. \<not> pull_request i) allIssues)"
proof -
  let ?d = "stage_of (repoIssuePipelineMap board) (length board)"
  have "mset (concat (map issues rps)) =
      mset (filter (\<lambda>i. \<not> pull_request i \<and> ?d i < Suc (length board)) allIssues)"
    unfolding classified_as_map [OF assms] by (rule partition_by_stage)
  moreover have "?d i < Suc (length board)" for i
    using stage_of_index_le [of board i] by simp
  ultimately show ?thesis by simp
qed

lemma classified_unique_stage:
  assumes "classified board allIssues = Inr rps" "i \<in> set allIssues" "\<not> pull_request i"
  shows "\<exists>!k. k < length rps \<and> i \<in> set (issues (rps ! k))"
proof -
  let ?d = "stage_of (repoIssuePipelineMap board) (length board)"
  have mem: "i \<in> set (issues (rps ! k)) \<longleftrightarrow> ?d i = k" if "k < length rps" for k
  proof -
    from that have "k \<le> length board" using classified_length [OF assms(1)] by simp
    from classified_nth_issues [OF assms(1) this] assms(2,3) show ?thesis by auto
  qed
  have "?d i < length rps"
    using stage_of_index_le [of board i] classified_length [OF assms(1)] by simp
  with mem show ?thesis by auto
qed

text \<open>
  Claim C1 (exhaustive partition). For every board and every input collection the
  classifier returns a stage list, and over that list: the stage issue lists together hold
  exactly the non-pull-request issues of the input, each occurrence once (an equation of
  multisets); their union is the set of non-pull-request input issues; and every
  non-pull-request input issue is in the issue list of exactly one stage position.
\<close>

theorem exhaustive_partition:
  "\<exists>rps. classified board allIssues = Inr rps
     \<and> mset (concat (map issues rps)) = mset (filter (\<lambda>i. \<not> pull_request i) allIssues)
     \<and> (\<Union>rp \<in> set rps. set (issues rp)) = {i \<in> set allIssues. \<not> pull_request i}
     \<and> (\<forall>i \<in> set allIssues. \<not> pull_request i \<longrightarrow>
           (\<exists>!k. k < length rps \<and> i \<in> set (issues (rps ! k))))"
proof -
  obtain rps where c: "classified board allIssues = Inr rps"
    by (simp add: classified_routed)
  have m: "mset (concat (map issues rps)) = mset (filter (\<lambda>i. \<not> pull_request i) allIssues)"
    using c by (rule classified_mset)
  have "set (concat (map issues rps)) = set (filter (\<lambda>i. \<not> pull_request i) allIssues)"
    using m by (rule mset_eq_setD)
  then have u: "(\<Union>rp \<in> set rps. set (issues rp)) = {i \<in> set allIssues. \<not> pull_request i}"
    by simp
  from c m u classified_unique_stage [OF c] show ?thesis by blast
qed

text \<open>The example of section 8 of the specification, with a pull request added: issue B
  is in exactly one stage, and the stages hold A, B and C.\<close>

theorem exhaustive_partition_witness:
  "issueB \<in> set exampleIssues \<and> \<not> pull_request issueB \<and>
   (\<exists>rps. classified exampleBoard exampleIssues = Inr rps
      \<and> (\<exists>!k. k < length rps \<and> issueB \<in> set (issues (rps ! k)))
      \<and> (\<Union>rp \<in> set rps. set (issues rp)) = {issueA, issueB, issueC})"
proof -
  have a: "issueB \<in> set exampleIssues" by (simp add: exampleIssues_def)
  have b: "\<not> pull_request issueB" by (simp add: issueB_def)
  have p: "\<not> pull_request issueA" "\<not> pull_request issueC" "pull_request pullD"
    by (simp_all add: issueA_def issueC_def pullD_def)
  have s: "{i \<in> set exampleIssues. \<not> pull_request i} = {issueA, issueB, issueC}"
    using p b by (auto simp: exampleIssues_def)
  from exhaustive_partition [of exampleBoard exampleIssues]
  obtain rps where c: "classified exampleBoard exampleIssues = Inr rps"
    and u: "(\<Union>rp \<in> set rps. set (issues rp)) = {i \<in> set exampleIssues. \<not> pull_request i}"
    and q: "\<forall>i \<in> set exampleIssues. \<not> pull_request i \<longrightarrow>
           (\<exists>!k. k < length rps \<and> i \<in> set (issues (rps ! k)))"
    by blast
  from q a b have "\<exists>!k. k < length rps \<and> issueB \<in> set (issues (rps ! k))" by blast
  moreover from u have "(\<Union>rp \<in> set rps. set (issues rp)) = {issueA, issueB, issueC}"
    by (simp only: s)
  ultimately show ?thesis using a b c by blast
qed

section \<open>Routing and the index\<close>

lemma stage_of_eq_less:
  assumes "k < length board"
  shows "stage_of (repoIssuePipelineMap board) (length board) i = k \<longleftrightarrow>
     repoIssuePipelineMap board (issueKey (repo_id i) (number i)) = Some k \<and> state i \<noteq> ''closed''"
  using assms by (auto simp: stage_of_def split: option.splits)

lemma stage_of_eq_Closed:
  "stage_of (repoIssuePipelineMap board) (length board) i = length board \<longleftrightarrow>
     repoIssuePipelineMap board (issueKey (repo_id i) (number i)) = None \<or> state i = ''closed''"
  by (auto simp: stage_of_def split: option.splits dest: index_range)

text \<open>
  Claim C2 (classification routing). The classifier returns a stage list with one more
  stage than the board has pipelines. The issue list of the stage at a pipeline position
  \<open>k\<close> is the input, in order, restricted to the issues that are no pull requests, whose
  identity the index maps to \<open>k\<close> and whose state is not \<^verbatim>\<open>closed\<close>. The issue list of the
  stage at position \<open>P = length board\<close> is the input restricted to the issues that are no
  pull requests and whose identity is not in the index or whose state is \<^verbatim>\<open>closed\<close>.
\<close>
theorem classification_routing:
  "\<exists>rps. classified board allIssues = Inr rps \<and> length rps = length board + 1 \<and>
     (\<forall>k < length board. issues (rps ! k) =
        filter (\<lambda>i. \<not> pull_request i
                  \<and> repoIssuePipelineMap board (issueKey (repo_id i) (number i)) = Some k
                  \<and> state i \<noteq> ''closed'') allIssues) \<and>
     issues (rps ! length board) =
        filter (\<lambda>i. \<not> pull_request i
                  \<and> (repoIssuePipelineMap board (issueKey (repo_id i) (number i)) = None
                     \<or> state i = ''closed'')) allIssues"
proof -
  obtain rps where c: "classified board allIssues = Inr rps"
    by (simp add: classified_routed)
  have "issues (rps ! k) =
        filter (\<lambda>i. \<not> pull_request i
                  \<and> repoIssuePipelineMap board (issueKey (repo_id i) (number i)) = Some k
                  \<and> state i \<noteq> ''closed'') allIssues" if "k < length board" for k
  proof -
    from that have "k \<le> length board" by simp
    from classified_nth_issues [OF c this] show ?thesis
      by (simp only: stage_of_eq_less [OF that])
  qed
  moreover have "issues (rps ! length board) =
        filter (\<lambda>i. \<not> pull_request i
                  \<and> (repoIssuePipelineMap board (issueKey (repo_id i) (number i)) = None
                     \<or> state i = ''closed'')) allIssues"
    using classified_nth_issues [OF c order_refl] by (simp only: stage_of_eq_Closed)
  moreover have "length rps = length board + 1"
    using classified_length [OF c] by simp
  ultimately show ?thesis using c by blast
qed

lemma example_filters:
  "filter (\<lambda>i. \<not> pull_request i
            \<and> repoIssuePipelineMap exampleBoard (issueKey (repo_id i) (number i)) = Some 0
            \<and> state i \<noteq> ''closed'') exampleIssues = [issueA]"
  "filter (\<lambda>i. \<not> pull_request i
            \<and> repoIssuePipelineMap exampleBoard (issueKey (repo_id i) (number i)) = Some 1
            \<and> state i \<noteq> ''closed'') exampleIssues = []"
  "filter (\<lambda>i. \<not> pull_request i
            \<and> (repoIssuePipelineMap exampleBoard (issueKey (repo_id i) (number i)) = None
               \<or> state i = ''closed'')) exampleIssues = [issueB, issueC]"
  using example_index
  by (simp_all add: exampleIssues_def issueA_def issueB_def issueC_def pullD_def)

text \<open>On the example: A on the first stage, nothing on \<^verbatim>\<open>Done\<close>, B and C on the Closed stage.\<close>

theorem classification_routing_witness:
  "(0::nat) < length exampleBoard \<and> (1::nat) < length exampleBoard \<and>
   (\<exists>rps. classified exampleBoard exampleIssues = Inr rps \<and> length rps = 3 \<and>
      issues (rps ! 0) = [issueA] \<and> issues (rps ! 1) = [] \<and> issues (rps ! 2) = [issueB, issueC])"
proof -
  have l: "length exampleBoard = 2" by (simp add: exampleBoard_def)
  from classification_routing [of exampleBoard exampleIssues]
  obtain rps where c: "classified exampleBoard exampleIssues = Inr rps"
    and n: "length rps = length exampleBoard + 1"
    and r: "\<forall>k < length exampleBoard. issues (rps ! k) =
        filter (\<lambda>i. \<not> pull_request i
                  \<and> repoIssuePipelineMap exampleBoard (issueKey (repo_id i) (number i)) = Some k
                  \<and> state i \<noteq> ''closed'') exampleIssues"
    and z: "issues (rps ! length exampleBoard) =
        filter (\<lambda>i. \<not> pull_request i
                  \<and> (repoIssuePipelineMap exampleBoard (issueKey (repo_id i) (number i)) = None
                     \<or> state i = ''closed'')) exampleIssues"
    by blast
  have h0: "(0::nat) < length exampleBoard" and h1: "(1::nat) < length exampleBoard"
    by (simp_all add: l)
  from r h0 have "issues (rps ! 0) = [issueA]" by (simp only: example_filters)
  moreover from r h1 have "issues (rps ! 1) = []" by (simp only: example_filters)
  moreover from z have "issues (rps ! 2) = [issueB, issueC]" by (simp only: l example_filters)
  moreover from n have "length rps = 3" by (simp add: l)
  ultimately show ?thesis using c h0 h1 by blast
qed

text \<open>
  Claim C6 (index last-wins). The index maps the key of an identity \<open>(r, n)\<close> to \<open>k\<close>
  exactly when \<open>k\<close> is the position of the last pipeline, in board order, whose references
  contain \<open>(r, n)\<close>; it has no entry for the identity exactly when no pipeline contains it;
  and it has as many entries as there are distinct identities on the board, one for each.
\<close>
theorem index_last_wins:
  "(repoIssuePipelineMap board (issueKey r n) = Some k \<longleftrightarrow>
      k < length board \<and> (r, n) \<in> set (issues (board ! k)) \<and>
      (\<forall>j. k < j \<and> j < length board \<longrightarrow> (r, n) \<notin> set (issues (board ! j))))
   \<and> (repoIssuePipelineMap board (issueKey r n) = None \<longleftrightarrow>
      (\<forall>p \<in> set board. (r, n) \<notin> set (issues p)))
   \<and> card (dom (repoIssuePipelineMap board)) = card (\<Union>p \<in> set board. set (issues p))"
  using index_Some_iff [of board r n k] index_None_iff [of board r n] index_card [of board]
  by blast

text \<open>On a board that lists the issue 10 of repository 1 on two pipelines.\<close>

theorem index_last_wins_witness:
  "repoIssuePipelineMap twiceBoard (issueKey 1 10) = Some 1
   \<and> repoIssuePipelineMap twiceBoard (issueKey 2 5) = Some 0
   \<and> repoIssuePipelineMap twiceBoard (issueKey 3 1) = None
   \<and> card (dom (repoIssuePipelineMap twiceBoard)) = 2"
proof -
  have l: "length twiceBoard = 3" by (simp add: twiceBoard_def)
  have l1: "(1::nat) < length twiceBoard" and l0: "(0::nat) < length twiceBoard"
    by (simp_all add: l)
  have m: "(1, 10) \<in> set (issues (twiceBoard ! 1))" "(1, 10) \<notin> set (issues (twiceBoard ! 2))"
    "(2, 5) \<in> set (issues (twiceBoard ! 0))" "(2, 5) \<notin> set (issues (twiceBoard ! 1))"
    "(2, 5) \<notin> set (issues (twiceBoard ! 2))"
    by (simp_all add: twiceBoard_def)
  have later: "j = 2" if "1 < j" "j < length twiceBoard" for j :: nat
    using that by (simp add: l)
  have a: "(1::nat) < length twiceBoard \<and> (1, 10) \<in> set (issues (twiceBoard ! 1)) \<and>
      (\<forall>j. 1 < j \<and> j < length twiceBoard \<longrightarrow> (1, 10) \<notin> set (issues (twiceBoard ! j)))"
    using later l1 m by blast
  have later0: "j = 1 \<or> j = 2" if "0 < j" "j < length twiceBoard" for j :: nat
    using that by (auto simp: l)
  have b: "(0::nat) < length twiceBoard \<and> (2, 5) \<in> set (issues (twiceBoard ! 0)) \<and>
      (\<forall>j. 0 < j \<and> j < length twiceBoard \<longrightarrow> (2, 5) \<notin> set (issues (twiceBoard ! j)))"
    using later0 l0 m by blast
  have c: "\<forall>p \<in> set twiceBoard. (3, 1) \<notin> set (issues p)"
    by (simp add: twiceBoard_def)
  have d: "(\<Union>p \<in> set twiceBoard. set (issues p)) = {(1, 10), (2, 5)}"
    by (auto simp: twiceBoard_def)
  have "card {(1::nat, 10::nat), (2, 5)} = 2" by simp
  with d have e: "card (\<Union>p \<in> set twiceBoard. set (issues p)) = 2" by (simp only:)
  from a index_last_wins [of twiceBoard 1 10 1]
  have "repoIssuePipelineMap twiceBoard (issueKey 1 10) = Some 1" by blast
  moreover from b index_last_wins [of twiceBoard 2 5 0]
  have "repoIssuePipelineMap twiceBoard (issueKey 2 5) = Some 0" by blast
  moreover from c index_last_wins [of twiceBoard 3 1 0]
  have "repoIssuePipelineMap twiceBoard (issueKey 3 1) = None" by blast
  moreover from e index_last_wins [of twiceBoard 1 10 1]
  have "card (dom (repoIssuePipelineMap twiceBoard)) = 2" by simp
  ultimately show ?thesis by blast
qed

section \<open>Pull requests, stage names, order\<close>

lemma routed_without_pull_requests:
  "routed m rps (filter (\<lambda>i. \<not> pull_request i) is) = routed m rps is"
proof -
  have "filter (\<lambda>i. \<not> pull_request i \<and> stage_of m (length rps - 1) i = k)
          (filter (\<lambda>i. \<not> pull_request i) is)
      = filter (\<lambda>i. \<not> pull_request i \<and> stage_of m (length rps - 1) i = k) is" for k
    by (induction "is") simp_all
  then show ?thesis by (simp add: routed_def)
qed

lemma classified_without_pull_requests:
  "classified board (filter (\<lambda>i. \<not> pull_request i) allIssues) = classified board allIssues"
  by (simp add: classified_routed routed_without_pull_requests)

lemma classified_no_pull_request:
  assumes "classified board allIssues = Inr rps" "rp \<in> set rps" "i \<in> set (issues rp)"
  shows "i \<in> set allIssues \<and> \<not> pull_request i"
proof -
  from assms(2,3) have "i \<in> set (concat (map issues rps))" by auto
  then have "i \<in># mset (concat (map issues rps))" by (simp only: set_mset_mset)
  then have "i \<in># mset (filter (\<lambda>i. \<not> pull_request i) allIssues)"
    by (simp only: classified_mset [OF assms(1)])
  then show ?thesis by simp
qed

text \<open>
  Claim C7 (pull request exclusion). No issue list of the classified stage list contains
  an issue whose pull-request flag is set, and the classified stages, the rendered report
  and the totals are those of the input with the pull requests removed.
\<close>
theorem pull_request_exclusion:
  "\<exists>rps. classified board allIssues = Inr rps
     \<and> (\<forall>rp \<in> set rps. \<forall>i \<in> set (issues rp). \<not> pull_request i)
     \<and> classified board (filter (\<lambda>i. \<not> pull_request i) allIssues) = Inr rps
     \<and> main board allIssues currentMilestone
         = main board (filter (\<lambda>i. \<not> pull_request i) allIssues) currentMilestone"
proof -
  obtain rps where c: "classified board allIssues = Inr rps"
    by (simp add: classified_routed)
  have "\<forall>rp \<in> set rps. \<forall>i \<in> set (issues rp). \<not> pull_request i"
    using classified_no_pull_request [OF c] by blast
  moreover have "classified board (filter (\<lambda>i. \<not> pull_request i) allIssues) = Inr rps"
    using c by (simp only: classified_without_pull_requests)
  moreover have "main board allIssues currentMilestone
         = main board (filter (\<lambda>i. \<not> pull_request i) allIssues) currentMilestone"
    by (simp only: main_def classified_without_pull_requests)
  ultimately show ?thesis using c by blast
qed

text \<open>On the example: the pull request D is on no stage, and the run is that of A, B and C.\<close>

theorem pull_request_exclusion_witness:
  "pullD \<in> set exampleIssues \<and> pull_request pullD
   \<and> (\<exists>rps. classified exampleBoard exampleIssues = Inr rps
         \<and> rps ! 0 \<in> set rps \<and> issueA \<in> set (issues (rps ! 0)) \<and> \<not> pull_request issueA
         \<and> pullD \<notin> (\<Union>rp \<in> set rps. set (issues rp)))
   \<and> main exampleBoard exampleIssues (Some ''v1'')
        = main exampleBoard [issueA, issueB, issueC] (Some ''v1'')"
proof -
  have p: "pull_request pullD" "\<not> pull_request issueA" "\<not> pull_request issueB"
    "\<not> pull_request issueC"
    by (simp_all add: pullD_def issueA_def issueB_def issueC_def)
  have f: "filter (\<lambda>i. \<not> pull_request i) exampleIssues = [issueA, issueB, issueC]"
    using p by (simp add: exampleIssues_def)
  have d: "pullD \<in> set exampleIssues" by (simp add: exampleIssues_def)
  from pull_request_exclusion [of exampleBoard exampleIssues "Some ''v1''"]
  obtain rps where c: "classified exampleBoard exampleIssues = Inr rps"
    and n: "\<forall>rp \<in> set rps. \<forall>i \<in> set (issues rp). \<not> pull_request i"
    and e: "main exampleBoard exampleIssues (Some ''v1'')
         = main exampleBoard (filter (\<lambda>i. \<not> pull_request i) exampleIssues) (Some ''v1'')"
    by blast
  from c have r: "rps = [\<lparr>name = ''In Progress'', issues = [issueA]\<rparr>,
          \<lparr>name = ''Done'', issues = []\<rparr>,
          \<lparr>name = ''Closed'', issues = [issueB, issueC]\<rparr>]"
    by (simp add: example_classified)
  have m: "rps ! 0 \<in> set rps" "issueA \<in> set (issues (rps ! 0))" by (simp_all add: r)
  from n p(1) have "pullD \<notin> (\<Union>rp \<in> set rps. set (issues rp))" by blast
  with c m p d e show ?thesis by (simp only: f) blast
qed

text \<open>
  Claim C8 (synthetic Closed stage). The stage list handed to the aggregation has the names
  of the board's pipelines, in board order, followed by one stage named \<^verbatim>\<open>Closed\<close>, whatever
  the names of the pipelines are.
\<close>
theorem synthetic_closed_stage:
  "\<exists>rps. classified board allIssues = Inr rps
     \<and> main board allIssues currentMilestone = Inr (report currentMilestone rps)
     \<and> map name rps = map name board @ [''Closed'']"
proof -
  obtain rps where c: "classified board allIssues = Inr rps"
    by (simp add: classified_routed)
  from c have "main board allIssues currentMilestone = Inr (report currentMilestone rps)"
    by (simp add: main_def)
  with c classified_names [OF c] show ?thesis by blast
qed

text \<open>
  Claim C10 (order preservation). The issue list of every stage is a subsequence of the
  flat input collection, and the milestone-filtered list of a stage, which the body
  renders, is a subsequence of the stage's issue list and so of the input.
\<close>
theorem order_preservation:
  "\<exists>rps. classified board allIssues = Inr rps
     \<and> (\<forall>rp \<in> set rps.
           subseq (issues rp) allIssues
           \<and> subseq (milestoneIssues currentMilestone (issues rp)) (issues rp)
           \<and> subseq (milestoneIssues currentMilestone (issues rp)) allIssues)"
proof -
  obtain rps where c: "classified board allIssues = Inr rps"
    by (simp add: classified_routed)
  have "subseq (issues rp) allIssues
           \<and> subseq (milestoneIssues currentMilestone (issues rp)) (issues rp)
           \<and> subseq (milestoneIssues currentMilestone (issues rp)) allIssues"
    if "rp \<in> set rps" for rp
  proof -
    from that obtain k where k: "k < length rps" "rp = rps ! k"
      by (auto simp: in_set_conv_nth)
    then have "k \<le> length board" using classified_length [OF c] by simp
    from classified_nth_issues [OF c this] k(2)
    have a: "subseq (issues rp) allIssues" by simp
    have b: "subseq (milestoneIssues currentMilestone (issues rp)) (issues rp)"
      by (simp add: milestoneIssues_def)
    from b a have "subseq (milestoneIssues currentMilestone (issues rp)) allIssues"
      by (rule subseq_order.trans)
    with a b show ?thesis by blast
  qed
  with c show ?thesis by blast
qed

text \<open>On the example: the Closed stage holds B, C in input order.\<close>

theorem order_preservation_witness:
  "\<exists>rps. classified exampleBoard exampleIssues = Inr rps
     \<and> rps ! 2 \<in> set rps
     \<and> issues (rps ! 2) = [issueB, issueC]
     \<and> subseq [issueB, issueC] exampleIssues
     \<and> subseq (milestoneIssues (Some ''v1'') [issueB, issueC]) exampleIssues"
proof -
  from order_preservation [of exampleBoard exampleIssues "Some ''v1''"]
  obtain rps where c: "classified exampleBoard exampleIssues = Inr rps"
    and o: "\<forall>rp \<in> set rps.
           subseq (issues rp) exampleIssues
           \<and> subseq (milestoneIssues (Some ''v1'') (issues rp)) (issues rp)
           \<and> subseq (milestoneIssues (Some ''v1'') (issues rp)) exampleIssues"
    by blast
  from c have r: "rps = [\<lparr>name = ''In Progress'', issues = [issueA]\<rparr>,
          \<lparr>name = ''Done'', issues = []\<rparr>,
          \<lparr>name = ''Closed'', issues = [issueB, issueC]\<rparr>]"
    by (simp add: example_classified)
  have m: "rps ! 2 \<in> set rps" and i: "issues (rps ! 2) = [issueB, issueC]"
    by (simp_all add: r)
  from o m have "subseq (issues (rps ! 2)) exampleIssues
     \<and> subseq (milestoneIssues (Some ''v1'') (issues (rps ! 2))) exampleIssues"
    by blast
  then have "subseq [issueB, issueC] exampleIssues
     \<and> subseq (milestoneIssues (Some ''v1'') [issueB, issueC]) exampleIssues"
    by (simp only: i)
  with c m i show ?thesis by blast
qed

section \<open>Aggregation and the report\<close>

lemma js_add_commute: "js_add a b = js_add b a"
  by (simp add: js_add_def split: option.splits)



lemma issueLines_spec: "issueLines i = [specIssueLine i, html_url i]"
  by (simp add: issueLines_def specIssueLine_def)

lemma map_issueLines_spec: "map issueLines ms = map (\<lambda>i. [specIssueLine i, html_url i]) ms"
  by (simp add: issueLines_spec)

lemma reportPipeline_spec:
  "reportPipeline cm rp (st, out) =
     (if name rp = ''Done'' \<or> name rp = ''Closed''
      then st\<lparr>closed := js_add (closed st) (stageTotal cm rp)\<rparr>
      else st\<lparr>open := js_add (open st) (stageTotal cm rp)\<rparr>,
      out @ specSection (name rp) (stageTotal cm rp) (milestoneIssues cm (issues rp)))"
  by (simp add: reportPipeline_def Let_def stageTotal_def specSection_def specHeader_def
      map_issueLines_spec)

lemma fold_reportPipeline:
  "fold (reportPipeline cm) rps (st, out) =
     (\<lparr>open = foldl js_add (open st)
         (map (stageTotal cm) (filter (\<lambda>rp. \<not> (name rp = ''Done'' \<or> name rp = ''Closed'')) rps)),
       closed = foldl js_add (closed st)
         (map (stageTotal cm) (filter (\<lambda>rp. name rp = ''Done'' \<or> name rp = ''Closed'') rps))\<rparr>,
      out @ concat (map (\<lambda>rp. specSection (name rp) (stageTotal cm rp)
                                  (milestoneIssues cm (issues rp))) rps))"
proof (induction rps arbitrary: st out)
  case Nil
  show ?case by simp
next
  case (Cons rp rps)
  show ?case
    by (simp only: fold_simps reportPipeline_spec Cons.IH split: if_splits) simp
qed

lemma report_spec:
  "report cm rps =
     (\<lparr>open = js_sum
         (map (stageTotal cm) (filter (\<lambda>rp. \<not> (name rp = ''Done'' \<or> name rp = ''Closed'')) rps)),
       closed = js_sum
         (map (stageTotal cm) (filter (\<lambda>rp. name rp = ''Done'' \<or> name rp = ''Closed'') rps))\<rparr>,
      concat (map (\<lambda>rp. specSection (name rp) (stageTotal cm rp)
                            (milestoneIssues cm (issues rp))) rps)
      @ [''Total: ''
           @ toString (js_sum (map (stageTotal cm)
                (filter (\<lambda>rp. \<not> (name rp = ''Done'' \<or> name rp = ''Closed'')) rps)))
           @ '' / ''
           @ toString (js_add
               (js_sum (map (stageTotal cm)
                  (filter (\<lambda>rp. name rp = ''Done'' \<or> name rp = ''Closed'') rps)))
               (js_sum (map (stageTotal cm)
                  (filter (\<lambda>rp. \<not> (name rp = ''Done'' \<or> name rp = ''Closed'')) rps))))])"
  by (simp add: report_def fold_reportPipeline js_sum_def)








text \<open>
  Claim C9 (rendered report format). \<^verbatim>\<open>main\<close> returns, and the console holds, for every
  stage in order, the section of the specification (\<open>specSection\<close>: the header
  \<^verbatim>\<open>{name} - {totalPoints} Points\<close>, an underline of as many dashes as the header has
  characters, the body, which is the line \<^verbatim>\<open>None\<close> for an empty filtered list and else, for
  each filtered issue, the issue line followed by the URL, and the separator line, which
  holds one space), and after all sections the one line \<^verbatim>\<open>Total: {open} / {open + closed}\<close>.
  Strings are lists of the units \<^verbatim>\<open>.length\<close> counts.
\<close>
theorem report_format:
  "\<exists>rps st out. classified board allIssues = Inr rps
     \<and> main board allIssues currentMilestone = Inr (st, out)
     \<and> out = concat (map (\<lambda>rp. specSection (name rp) (stageTotal currentMilestone rp)
                                  (milestoneIssues currentMilestone (issues rp))) rps)
             @ [''Total: '' @ toString (open st) @ '' / '' @ toString (js_add (open st) (closed st))]"
proof -
  obtain rps where c: "classified board allIssues = Inr rps"
    by (simp add: classified_routed)
  obtain st out where r: "report currentMilestone rps = (st, out)"
    by (cases "report currentMilestone rps")
  from c r have m: "main board allIssues currentMilestone = Inr (st, out)"
    by (simp add: main_def)
  from r have "out = concat (map (\<lambda>rp. specSection (name rp) (stageTotal currentMilestone rp)
                                  (milestoneIssues currentMilestone (issues rp))) rps)
             @ [''Total: '' @ toString (open st) @ '' / '' @ toString (js_add (closed st) (open st))]"
    by (auto simp: report_spec)
  then have "out = concat (map (\<lambda>rp. specSection (name rp) (stageTotal currentMilestone rp)
                                  (milestoneIssues currentMilestone (issues rp))) rps)
             @ [''Total: '' @ toString (open st) @ '' / '' @ toString (js_add (open st) (closed st))]"
    by (simp only: js_add_commute [of "closed st" "open st"])
  with c m show ?thesis by blast
qed

lemma example_totals:
  "stageTotal (Some ''v1'') \<lparr>name = ''In Progress'', issues = [issueA]\<rparr> = Number 3"
  "stageTotal (Some ''v1'') \<lparr>name = ''Done'', issues = []\<rparr> = Number 0"
  "stageTotal (Some ''v1'') \<lparr>name = ''Closed'', issues = [issueB, issueC]\<rparr> = Number 7"
  by (simp_all add: stageTotal_def milestoneIssues_def sumBy_def baseSum_def sumStep_def js_add_def
      issueA_def issueB_def issueC_def)

lemma example_filtered:
  "milestoneIssues (Some ''v1'') [issueA] = [issueA]"
  "milestoneIssues (Some ''v1'') [] = []"
  "milestoneIssues (Some ''v1'') [issueB, issueC] = [issueB, issueC]"
  by (simp_all add: milestoneIssues_def issueA_def issueB_def issueC_def)

lemma example_sections:
  "specSection ''In Progress'' (Number 3) [issueA] =
     [''In Progress - 3 Points'', ''----------------------'',
      ''app#10: A [3 pts] ann'', ''https://example.org/app/issues/10'', '' '']"
  "specSection ''Done'' (Number 0) [] =
     [''Done - 0 Points'', ''---------------'', ''None'', '' '']"
  "specSection ''Closed'' (Number 7) [issueB, issueC] =
     [''Closed - 7 Points'', ''-----------------'',
      ''app#11: B [5 pts]'', ''https://example.org/app/issues/11'',
      ''app#12: C [2 pts]'', ''https://example.org/app/issues/12'', '' '']"
  by (simp_all add: specSection_def specHeader_def specIssueLine_def int_toString_def digits.simps
      issueA_def issueB_def issueC_def)




text \<open>The report of the example, line by line.\<close>

theorem report_format_witness:
  "\<exists>st. main exampleBoard exampleIssues (Some ''v1'') = Inr (st,
     [''In Progress - 3 Points'', ''----------------------'',
      ''app#10: A [3 pts] ann'', ''https://example.org/app/issues/10'', '' '',
      ''Done - 0 Points'', ''---------------'', ''None'', '' '',
      ''Closed - 7 Points'', ''-----------------'',
      ''app#11: B [5 pts]'', ''https://example.org/app/issues/11'',
      ''app#12: C [2 pts]'', ''https://example.org/app/issues/12'', '' '',
      ''Total: 3 / 10''])"
proof -
  from report_format [of exampleBoard exampleIssues "Some ''v1''"]
  obtain rps st out where c: "classified exampleBoard exampleIssues = Inr rps"
    and m: "main exampleBoard exampleIssues (Some ''v1'') = Inr (st, out)"
    and f: "out = concat (map (\<lambda>rp. specSection (name rp) (stageTotal (Some ''v1'') rp)
                                  (milestoneIssues (Some ''v1'') (issues rp))) rps)
             @ [''Total: '' @ toString (open st) @ '' / '' @ toString (js_add (open st) (closed st))]"
    by blast
  from c have r: "rps = [\<lparr>name = ''In Progress'', issues = [issueA]\<rparr>,
          \<lparr>name = ''Done'', issues = []\<rparr>,
          \<lparr>name = ''Closed'', issues = [issueB, issueC]\<rparr>]"
    by (simp add: example_classified)
  from m c have "report (Some ''v1'') rps = (st, out)" by (simp add: main_def)
  then have s: "open st = Number 3" "closed st = Number 7"
    by (auto simp: report_spec r example_totals js_sum_def js_add_def)
  have "out = [''In Progress - 3 Points'', ''----------------------'',
      ''app#10: A [3 pts] ann'', ''https://example.org/app/issues/10'', '' '',
      ''Done - 0 Points'', ''---------------'', ''None'', '' '',
      ''Closed - 7 Points'', ''-----------------'',
      ''app#11: B [5 pts]'', ''https://example.org/app/issues/11'',
      ''app#12: C [2 pts]'', ''https://example.org/app/issues/12'', '' '',
      ''Total: 3 / 10'']"
    unfolding f
    by (simp add: r s example_totals example_filtered example_sections js_add_def
        int_toString_def digits.simps)
  with m show ?thesis by blast
qed

section \<open>The milestone filter\<close>

lemma milestoneIssues_target:
  "milestoneIssues (Some target) iss = filter (\<lambda>i. milestone i = Some target) iss"
  unfolding milestoneIssues_def
  by (induction iss) (auto split: option.splits)

lemma milestoneIssues_with_milestone:
  "milestoneIssues cm (filter (\<lambda>i. milestone i \<noteq> None) iss) = milestoneIssues cm iss"
  unfolding milestoneIssues_def
  by (induction iss) auto

text \<open>
  Claim C4 (milestone filter). With the target title configured, the filtered list of every
  stage is the stage's issue list restricted to the issues that have a milestone whose title
  is equal to the target (equality of strings: no case folding, no trimming); the stage
  total is the sum over that list, and is the same when the issues without a milestone are
  taken off the stage; and an input issue that is no pull request and has no milestone is in
  the issue list of a stage while it is not in that stage's filtered list.
\<close>
theorem milestone_filter:
  "\<exists>rps. classified board allIssues = Inr rps
     \<and> (\<forall>rp \<in> set rps.
           milestoneIssues (Some target) (issues rp)
             = filter (\<lambda>i. milestone i = Some target) (issues rp)
           \<and> stageTotal (Some target) rp
             = sumBy (filter (\<lambda>i. milestone i = Some target) (issues rp)) estimate
           \<and> stageTotal (Some target) rp
             = stageTotal (Some target) (rp\<lparr>issues := filter (\<lambda>i. milestone i \<noteq> None) (issues rp)\<rparr>))
     \<and> (\<forall>i \<in> set allIssues. \<not> pull_request i \<and> milestone i = None \<longrightarrow>
           (\<exists>rp \<in> set rps. i \<in> set (issues rp)
              \<and> i \<notin> set (milestoneIssues (Some target) (issues rp))))"
proof -
  obtain rps where c: "classified board allIssues = Inr rps"
    by (simp add: classified_routed)
  have a: "\<forall>rp \<in> set rps.
           milestoneIssues (Some target) (issues rp)
             = filter (\<lambda>i. milestone i = Some target) (issues rp)
           \<and> stageTotal (Some target) rp
             = sumBy (filter (\<lambda>i. milestone i = Some target) (issues rp)) estimate
           \<and> stageTotal (Some target) rp
             = stageTotal (Some target) (rp\<lparr>issues := filter (\<lambda>i. milestone i \<noteq> None) (issues rp)\<rparr>)"
  proof (intro ballI conjI)
    fix rp :: "issue pipeline"
    show "milestoneIssues (Some target) (issues rp)
        = filter (\<lambda>i. milestone i = Some target) (issues rp)"
      by (rule milestoneIssues_target)
    show "stageTotal (Some target) rp
        = sumBy (filter (\<lambda>i. milestone i = Some target) (issues rp)) estimate"
      by (simp only: stageTotal_def milestoneIssues_target)
    have "issues (rp\<lparr>issues := filter (\<lambda>i. milestone i \<noteq> None) (issues rp)\<rparr>)
        = filter (\<lambda>i. milestone i \<noteq> None) (issues rp)"
      by simp
    then show "stageTotal (Some target) rp
        = stageTotal (Some target) (rp\<lparr>issues := filter (\<lambda>i. milestone i \<noteq> None) (issues rp)\<rparr>)"
      by (simp only: stageTotal_def milestoneIssues_with_milestone)
  qed
  have b: "\<exists>rp \<in> set rps. i \<in> set (issues rp)
              \<and> i \<notin> set (milestoneIssues (Some target) (issues rp))"
    if "i \<in> set allIssues" "\<not> pull_request i" "milestone i = None" for i
  proof -
    from that(1,2) have "i \<in> set (filter (\<lambda>i. \<not> pull_request i) allIssues)" by simp
    then have "i \<in> set (concat (map issues rps))"
      using classified_mset [OF c] by (metis mset_eq_setD)
    then obtain rp where "rp \<in> set rps" "i \<in> set (issues rp)" by auto
    moreover from that(3) have "i \<notin> set (milestoneIssues (Some target) (issues rp))"
      by (simp add: milestoneIssues_target)
    ultimately show ?thesis by blast
  qed
  from c a b show ?thesis by blast
qed

lemma noBoard_classified:
  "classified [] [unplanned, otherCase, issueA]
     = Inr [\<lparr>name = ''Closed'', issues = [unplanned, otherCase, issueA]\<rparr>]"
  by (simp add: classified_def repoIssuePipelineMap_def richPipelines_def classify_issue_def
      push_issue_def unplanned_def otherCase_def issueA_def)

text \<open>On three issues and an empty board: the issue without a milestone and the issue of
  milestone \<^verbatim>\<open>V1\<close> stay on the Closed stage and are not in its filtered list for \<^verbatim>\<open>v1\<close>.\<close>

theorem milestone_filter_witness:
  "unplanned \<in> set [unplanned, otherCase, issueA] \<and> \<not> pull_request unplanned
   \<and> milestone unplanned = None
   \<and> (\<exists>rps. classified [] [unplanned, otherCase, issueA] = Inr rps
         \<and> rps ! 0 \<in> set rps
         \<and> issues (rps ! 0) = [unplanned, otherCase, issueA]
         \<and> milestoneIssues (Some ''v1'') (issues (rps ! 0)) = [issueA]
         \<and> stageTotal (Some ''v1'') (rps ! 0) = Number 3)"
proof -
  have u: "unplanned \<in> set [unplanned, otherCase, issueA]" "\<not> pull_request unplanned"
    "milestone unplanned = None"
    by (simp_all add: unplanned_def)
  from milestone_filter [of "[]" "[unplanned, otherCase, issueA]" "''v1''"]
  obtain rps where c: "classified [] [unplanned, otherCase, issueA] = Inr rps"
    and a: "\<forall>rp \<in> set rps.
           milestoneIssues (Some ''v1'') (issues rp)
             = filter (\<lambda>i. milestone i = Some ''v1'') (issues rp)
           \<and> stageTotal (Some ''v1'') rp
             = sumBy (filter (\<lambda>i. milestone i = Some ''v1'') (issues rp)) estimate"
    by blast
  from c have r: "rps = [\<lparr>name = ''Closed'', issues = [unplanned, otherCase, issueA]\<rparr>]"
    by (simp add: noBoard_classified)
  have m: "rps ! 0 \<in> set rps" and i: "issues (rps ! 0) = [unplanned, otherCase, issueA]"
    by (simp_all add: r)
  have f: "filter (\<lambda>i. milestone i = Some ''v1'') [unplanned, otherCase, issueA] = [issueA]"
    by (simp add: unplanned_def otherCase_def issueA_def)
  from a m have "milestoneIssues (Some ''v1'') (issues (rps ! 0))
             = filter (\<lambda>i. milestone i = Some ''v1'') (issues (rps ! 0))
           \<and> stageTotal (Some ''v1'') (rps ! 0)
             = sumBy (filter (\<lambda>i. milestone i = Some ''v1'') (issues (rps ! 0))) estimate"
    by blast
  then have "milestoneIssues (Some ''v1'') (issues (rps ! 0)) = [issueA]
      \<and> stageTotal (Some ''v1'') (rps ! 0) = sumBy [issueA] estimate"
    by (simp only: i f)
  moreover have "sumBy [issueA] estimate = Number 3"
    by (simp add: sumBy_def baseSum_def sumStep_def issueA_def)
  ultimately show ?thesis using c m i u by auto
qed

text \<open>
  Claim C5 (default-zero for missing estimate) does not hold of the code. A stage whose only
  milestone-matching issue has no \<^verbatim>\<open>estimate\<close> field gets the total \<^verbatim>\<open>undefined\<close>, not 0:
  \<^verbatim>\<open>baseSum\<close> never assigns \<^verbatim>\<open>result\<close>. The header reads \<^verbatim>\<open>Backlog - undefined Points\<close> and
  the totals are \<^verbatim>\<open>NaN\<close>. The issue is listed in the body, as the claim says.
\<close>
theorem missing_estimate_total_undefined:
  "main backlogBoard [unestimated] (Some ''v1'') =
     Inr (\<lparr>open = NaN, closed = Number 0\<rparr>,
       [''Backlog - undefined Points'', ''--------------------------'',
        ''app#20: U [undefined pts]'', ''https://example.org/app/issues/20'', '' '',
        ''Closed - 0 Points'', ''-----------------'', ''None'', '' '',
        ''Total: NaN / NaN''])"
proof -
  have k: "repoIssuePipelineMap backlogBoard (issueKey 1 20) = Some 0"
    by (simp add: backlogBoard_def repoIssuePipelineMap_def indexPipeline_def)
  have c: "classified backlogBoard [unestimated] =
      Inr [\<lparr>name = ''Backlog'', issues = [unestimated]\<rparr>, \<lparr>name = ''Closed'', issues = []\<rparr>]"
    using k by (simp add: classified_def classify_issue_def push_issue_def richPipelines_def
        backlogBoard_def unestimated_def)
  have t: "stageTotal (Some ''v1'') \<lparr>name = ''Backlog'', issues = [unestimated]\<rparr> = Undefined"
    "stageTotal (Some ''v1'') \<lparr>name = ''Closed'', issues = []\<rparr> = Number 0"
    by (simp_all add: stageTotal_def milestoneIssues_def sumBy_def baseSum_def sumStep_def unestimated_def)
  have f: "milestoneIssues (Some ''v1'') [unestimated] = [unestimated]"
    "milestoneIssues (Some ''v1'') [] = []"
    by (simp_all add: milestoneIssues_def unestimated_def)
  have s: "specSection ''Backlog'' Undefined [unestimated] =
       [''Backlog - undefined Points'', ''--------------------------'',
        ''app#20: U [undefined pts]'', ''https://example.org/app/issues/20'', '' '']"
    "specSection ''Closed'' (Number 0) [] =
       [''Closed - 0 Points'', ''-----------------'', ''None'', '' '']"
    by (simp_all add: specSection_def specHeader_def specIssueLine_def int_toString_def digits.simps
        unestimated_def)
  show ?thesis
    by (simp add: main_def c report_spec t f s js_sum_def js_add_def)
qed

text \<open>Where the default holds: when one milestone-matching issue of the stage has a numeric
  estimate, the total is the sum of the numeric estimates, and an issue whose estimate is
  absent or \<^verbatim>\<open>null\<close> adds 0.\<close>

lemma sumStep_from_Number:
  "NaN \<notin> set vs \<Longrightarrow> foldl sumStep (Number a) vs = Number (a + (\<Sum>v\<leftarrow>vs. points v))"
proof (induction vs arbitrary: a)
  case Nil
  show ?case by simp
next
  case (Cons v vs)
  from Cons.prems have "sumStep (Number a) v = Number (a + points v)"
    by (cases v) (simp_all add: sumStep_def js_add_def points_def)
  with Cons show ?case by (simp add: add.assoc)
qed

lemma sumStep_from_Null:
  "NaN \<notin> set vs \<Longrightarrow> Number n \<in> set vs \<Longrightarrow> foldl sumStep Null vs = Number (\<Sum>v\<leftarrow>vs. points v)"
proof (induction vs)
  case Nil
  then show ?case by simp
next
  case (Cons v vs)
  show ?case
  proof (cases v)
    case (Number m)
    then have "sumStep Null v = Number m" by (simp add: sumStep_def js_add_def)
    with Number Cons.prems sumStep_from_Number [of vs m] show ?thesis
      by (simp add: points_def)
  next
    case Null
    then have "sumStep Null v = Number 0" by (simp add: sumStep_def js_add_def)
    with Null Cons.prems sumStep_from_Number [of vs 0] show ?thesis
      by (simp add: points_def)
  next
    case Undefined
    then have "sumStep Null v = Null" by (simp add: sumStep_def)
    with Undefined Cons show ?thesis by (simp add: points_def)
  next
    case NaN
    with Cons.prems show ?thesis by simp
  qed
qed

lemma baseSum_numeric:
  "NaN \<notin> set vs \<Longrightarrow> Number n \<in> set vs \<Longrightarrow> baseSum vs = Number (\<Sum>v\<leftarrow>vs. points v)"
  unfolding baseSum_def
proof (induction vs)
  case Nil
  then show ?case by simp
next
  case (Cons v vs)
  show ?case
  proof (cases v)
    case (Number m)
    then have "sumStep Undefined v = Number m" by (simp add: sumStep_def)
    with Number Cons.prems sumStep_from_Number [of vs m] show ?thesis
      by (simp add: points_def)
  next
    case Null
    then have "sumStep Undefined v = Null" by (simp add: sumStep_def)
    with Null Cons.prems sumStep_from_Null [of vs n] show ?thesis
      by (simp add: points_def)
  next
    case Undefined
    then have "sumStep Undefined v = Undefined" by (simp add: sumStep_def)
    with Undefined Cons show ?thesis by (simp add: points_def)
  next
    case NaN
    with Cons.prems show ?thesis by simp
  qed
qed

lemma sumBy_some_numeric:
  assumes "\<forall>i \<in> set ms. estimate i \<noteq> NaN" "i \<in> set ms" "estimate i = Number n"
  shows "sumBy ms estimate = Number (\<Sum>i\<leftarrow>ms. points (estimate i))"
proof -
  from assms(1) have "NaN \<notin> set (map estimate ms)" by auto
  moreover from assms(2,3) have "Number n \<in> set (map estimate ms)" by force
  ultimately have "baseSum (map estimate ms) = Number (\<Sum>v\<leftarrow>map estimate ms. points v)"
    by (rule baseSum_numeric)
  moreover from assms(2) have "ms \<noteq> []" by auto
  ultimately show ?thesis by (simp add: sumBy_def comp_def)
qed

end
